theory Spec2Isabelle
  imports Main "HOL-Library.Sublist"
begin

section \<open>JavaScript strings\<close>

text \<open>
  A JavaScript string is a sequence of code units. The model uses \<^typ>\<open>string\<close>, whose
  characters are the code units 0 to 255 (ASCII and the Latin-1 supplement); on these the
  definitions below compute what the JavaScript methods compute. An optional field
  (\<^verbatim>\<open>name?: string\<close>) is a \<^typ>\<open>string option\<close>, \<^term>\<open>None\<close> being \<^verbatim>\<open>undefined\<close>.
\<close>

text \<open>\<^verbatim>\<open>\d\<close> (without the \<^verbatim>\<open>u\<close> flag): the ten ASCII digits.\<close>

definition is_digit :: "char \<Rightarrow> bool" where
  "is_digit c = (c \<in> set ''0123456789'')"

text \<open>
  White space and line terminators removed by \<^verbatim>\<open>String.prototype.trim\<close>, among the
  code units below 256: TAB, LF, VT, FF, CR, SP and NBSP.
\<close>

definition is_space :: "char \<Rightarrow> bool" where
  "is_space c = (c \<in> {CHR 0x09, CHR 0x0A, CHR 0x0B, CHR 0x0C, CHR 0x0D, CHR 0x20, CHR 0xA0})"

definition trim :: "string \<Rightarrow> string" where
  "trim s = rev (dropWhile is_space (rev (dropWhile is_space s)))"

text \<open>
  \<^verbatim>\<open>toLowerCase\<close> on one code unit: A to Z, and the Latin-1 capitals U+00C0 to U+00DE
  except the multiplication sign U+00D7, move up by 32; everything else stays.
\<close>

definition lower_char :: "char \<Rightarrow> char" where
  "lower_char c = (let n = (of_char c :: nat) in
     if (65 \<le> n \<and> n \<le> 90) \<or> (192 \<le> n \<and> n \<le> 222 \<and> n \<noteq> 215)
     then char_of (n + 32) else c)"

definition toLowerCase :: "string \<Rightarrow> string" where
  "toLowerCase s = map lower_char s"

text \<open>\<^verbatim>\<open>s.includes(sub)\<close>: \<open>sub\<close> occurs in \<open>s\<close> as a contiguous substring.\<close>

fun str_includes :: "string \<Rightarrow> string \<Rightarrow> bool" where
  "str_includes [] sub = (sub = [])"
| "str_includes (c # cs) sub = (prefix sub (c # cs) \<or> str_includes cs sub)"

text \<open>
  \<^verbatim>\<open>s.split(sep)\<close> for a one-character separator: the pieces between the separators, in
  order; the empty string gives one empty piece.
\<close>

fun split :: "char \<Rightarrow> string \<Rightarrow> string list" where
  "split sep [] = [[]]"
| "split sep (c # cs) =
     (if c = sep then [] # split sep cs
      else (case split sep cs of
              piece # pieces \<Rightarrow> (c # piece) # pieces
            | [] \<Rightarrow> [[c]]))"

text \<open>
  \<^verbatim>\<open>parseInt\<close> on a string of decimal digits. JavaScript returns a double, which is the
  exact value below \<open>2 ^ 53\<close> and at least \<open>2 ^ 53\<close> otherwise; the result is only compared
  with the table entries, all below 100, so the exact value decides the same.
\<close>

definition digit_value :: "char \<Rightarrow> nat" where
  "digit_value c = of_char c - 48"

definition parseInt :: "string \<Rightarrow> nat" where
  "parseInt ds = foldl (\<lambda>n c. 10 * n + digit_value c) 0 ds"

subsection \<open>Regular expressions\<close>

text \<open>
  The two patterns of the source are sequences of single-character atoms, some under
  \<^verbatim>\<open>+\<close>. \<open>rx_all\<close> is the backtracking matcher of ECMAScript anchored at the start of
  the input: it lists the remaining input after every way of matching, in the order in
  which the matcher tries them (a greedy \<^verbatim>\<open>+\<close> takes the longest run first and gives
  characters back one at a time). \<open>rx_exec\<close> scans the start positions from left to
  right, as \<^verbatim>\<open>String.prototype.match\<close> does for a pattern without the \<^verbatim>\<open>g\<close> flag, and
  returns the matched text.
\<close>

datatype atom = Digit | Chr char | ChrI char char

datatype item = One atom | Plus atom

fun atom_ok :: "atom \<Rightarrow> char \<Rightarrow> bool" where
  "atom_ok Digit c = is_digit c"
| "atom_ok (Chr x) c = (c = x)"
| "atom_ok (ChrI u l) c = (c = u \<or> c = l)"

fun rx_all :: "item list \<Rightarrow> string \<Rightarrow> string list" where
  "rx_all [] s = [s]"
| "rx_all (One a # r) s =
     (case s of [] \<Rightarrow> [] | c # cs \<Rightarrow> if atom_ok a c then rx_all r cs else [])"
| "rx_all (Plus a # r) s =
     concat (map (\<lambda>n. rx_all r (drop n s))
                 (rev [1 ..< Suc (length (takeWhile (atom_ok a) s))]))"

definition rx_first :: "item list \<Rightarrow> string \<Rightarrow> string option" where
  "rx_first r s =
     (case rx_all r s of [] \<Rightarrow> None | rest # _ \<Rightarrow> Some (take (length s - length rest) s))"

fun rx_exec :: "item list \<Rightarrow> string \<Rightarrow> string option" where
  "rx_exec r [] = rx_first r []"
| "rx_exec r (c # cs) =
     (case rx_first r (c # cs) of Some m \<Rightarrow> Some m | None \<Rightarrow> rx_exec r cs)"

text \<open>\<^verbatim>\<open>/(\d+\.\d+\.\d+\.\d+)/\<close>; group 1 is the whole match.\<close>

definition ipv4_regex :: "item list" where
  "ipv4_regex = [Plus Digit, One (Chr (CHR ''.'')), Plus Digit, One (Chr (CHR ''.'')),
                 Plus Digit, One (Chr (CHR ''.'')), Plus Digit]"

text \<open>
  \<^verbatim>\<open>/MC(\d+)/i\<close>. Under the \<^verbatim>\<open>i\<close> flag a pattern letter matches the code units with the
  same upper-case form, here the letter itself and its lower-case form. Group 1 is the
  match without its first two characters.
\<close>

definition mc_regex :: "item list" where
  "mc_regex = [One (ChrI (CHR ''M'') (CHR ''m'')), One (ChrI (CHR ''C'') (CHR ''c'')), Plus Digit]"

definition mcMatch :: "string \<Rightarrow> string option" where
  "mcMatch name = map_option (drop 2) (rx_exec mc_regex name)"

section \<open>The data model of the component\<close>

text \<open>
  \<^verbatim>\<open>interface WireGuardPeer\<close>. The interface declares
  \<^verbatim>\<open>"current-endpoint-address"\<close> as a string, but \<^verbatim>\<open>processPeers\<close> guards it with
  \<^verbatim>\<open>||\<close> like the optional fields, so the model lets it be absent as well.
\<close>

record WireGuardPeer =
  id :: string
  allowed_address :: string
  client_endpoint :: string
  comment :: "string option"
  current_endpoint_address :: "string option"
  interface :: string
  last_handshake :: "string option"
  name :: "string option"
  disabled :: "bool option"

text \<open>\<^verbatim>\<open>interface ProcessedPeer\<close>.\<close>

record ProcessedPeer =
  id :: string
  name :: string
  wgIP :: string
  lans :: "string list"
  status :: string
  lastHandshake :: string
  comment :: string
  endpointAddress :: string

definition DDNS_RESERVED_MCS :: "nat list" where
  "DDNS_RESERVED_MCS = [2, 7, 14, 20, 26, 46, 62, 66, 70]"

text \<open>The entries \<^verbatim>\<open>{ mcNumber, lan }\<close> as pairs.\<close>

definition STATIC_OVERRIDES :: "(nat \<times> string) list" where
  "STATIC_OVERRIDES =
     [(5, ''172.16.100.26''),
      (8, ''190.2.221.40:10554''),
      (19, ''192.168.13.0/24''),
      (21, ''201.193.161.165''),
      (22, ''192.168.11.0/24''),
      (31, ''177.93.6.24''),
      (38, ''201.192.162.70:5554''),
      (63, ''177.93.31.175'')]"

section \<open>processPeers\<close>

text \<open>\<^verbatim>\<open>v || d\<close> for an optional string \<open>v\<close>: \<^verbatim>\<open>undefined\<close> and the empty string are falsy.\<close>

definition or_else :: "string option \<Rightarrow> string \<Rightarrow> string" where
  "or_else v d = (case v of None \<Rightarrow> d | Some s \<Rightarrow> if s = [] then d else s)"

text \<open>\<^verbatim>\<open>peer.name || peer.comment || "Sin nombre"\<close>.\<close>

definition peer_name :: "WireGuardPeer \<Rightarrow> string" where
  "peer_name peer =
     or_else (WireGuardPeer.name peer) (or_else (WireGuardPeer.comment peer) ''Sin nombre'')"

definition peer_wgIP :: "WireGuardPeer \<Rightarrow> string" where
  "peer_wgIP peer =
     (case rx_exec ipv4_regex (allowed_address peer) of Some m \<Rightarrow> m | None \<Rightarrow> ''N/A'')"

definition peer_lans :: "WireGuardPeer \<Rightarrow> string list" where
  "peer_lans peer =
     map trim
       (filter (\<lambda>addr. \<not> str_includes addr ''100.100.100'' \<and> \<not> str_includes addr ''172.16.100'')
          (split (CHR '','') (allowed_address peer)))"

text \<open>
  \<^verbatim>\<open>isActive\<close>: the chain of \<^verbatim>\<open>&&\<close> is falsy when the field is absent or empty, and is
  otherwise the conjunction of the three tests.
\<close>

definition isActive :: "WireGuardPeer \<Rightarrow> bool" where
  "isActive peer =
     (case last_handshake peer of
        None \<Rightarrow> False
      | Some lh \<Rightarrow> lh \<noteq> [] \<and> \<not> str_includes lh ''h'' \<and> \<not> str_includes lh ''d'' \<and> \<not> str_includes lh ''w'')"

definition default_status :: "WireGuardPeer \<Rightarrow> string" where
  "default_status peer = (if isActive peer then ''active'' else ''inactive'')"

text \<open>
  The block \<^verbatim>\<open>if (mcMatch) { ... }\<close>, with the two tables passed in: the first
  \<^verbatim>\<open>if\<close> overwrites the status for a reserved number, the second, evaluated after it,
  for a number with a static override.
\<close>

definition classify :: "nat list \<Rightarrow> (nat \<times> string) list \<Rightarrow> string \<Rightarrow> string \<Rightarrow> string" where
  "classify reservedMcs overrides status0 nm =
     (case mcMatch nm of
        None \<Rightarrow> status0
      | Some group1 \<Rightarrow>
          let mcNum = parseInt group1;
              status = (if mcNum \<in> set reservedMcs then ''reserved-ddns'' else status0);
              status = (if list_ex (\<lambda>s. fst s = mcNum) overrides
                        then ''static-override'' else status)
          in status)"

definition peer_status :: "WireGuardPeer \<Rightarrow> string" where
  "peer_status peer =
     classify DDNS_RESERVED_MCS STATIC_OVERRIDES (default_status peer) (peer_name peer)"

definition processPeer :: "WireGuardPeer \<Rightarrow> ProcessedPeer" where
  "processPeer peer =
     \<lparr> ProcessedPeer.id = WireGuardPeer.id peer,
       ProcessedPeer.name = peer_name peer,
       wgIP = peer_wgIP peer,
       lans = peer_lans peer,
       status = peer_status peer,
       lastHandshake = or_else (last_handshake peer) ''never'',
       ProcessedPeer.comment = or_else (WireGuardPeer.comment peer) '''',
       endpointAddress = or_else (current_endpoint_address peer) ''N/A'' \<rparr>"

definition processPeers :: "WireGuardPeer list \<Rightarrow> ProcessedPeer list" where
  "processPeers rawPeers = map processPeer rawPeers"

section \<open>calculateStats\<close>

record Stats =
  total :: int
  active :: int
  inactive :: int
  reserved :: int
  static :: int
  available :: int

definition count_status :: "string \<Rightarrow> ProcessedPeer list \<Rightarrow> int" where
  "count_status st peersList = int (length (filter (\<lambda>p. status p = st) peersList))"

definition calculateStats :: "ProcessedPeer list \<Rightarrow> Stats" where
  "calculateStats peersList =
     \<lparr> total = int (length peersList),
       active = count_status ''active'' peersList,
       inactive = count_status ''inactive'' peersList,
       reserved = count_status ''reserved-ddns'' peersList,
       static = count_status ''static-override'' peersList,
       available = 200 - int (length peersList) \<rparr>"

section \<open>The search and status filter\<close>

text \<open>The predicate of the first \<^verbatim>\<open>filter\<close> in the effect on \<^verbatim>\<open>[searchTerm, filterStatus, peers]\<close>.\<close>

definition text_match :: "string \<Rightarrow> ProcessedPeer \<Rightarrow> bool" where
  "text_match searchTerm peer =
     (str_includes (toLowerCase (ProcessedPeer.name peer)) (toLowerCase searchTerm) \<or>
      str_includes (wgIP peer) searchTerm \<or>
      str_includes (toLowerCase (ProcessedPeer.comment peer)) (toLowerCase searchTerm))"

definition filterPeers :: "string \<Rightarrow> string \<Rightarrow> ProcessedPeer list \<Rightarrow> ProcessedPeer list" where
  "filterPeers searchTerm filterStatus peers =
     (let filtered = peers;
          filtered = (if searchTerm \<noteq> [] then filter (text_match searchTerm) filtered
                      else filtered);
          filtered = (if filterStatus \<noteq> ''all''
                      then filter (\<lambda>peer. status peer = filterStatus) filtered
                      else filtered)
      in filtered)"

section \<open>Notions used to state the properties\<close>

text \<open>
  The strings a pattern denotes: \<open>rx_lang r m\<close> holds when \<open>m\<close> as a whole is matched by
  \<open>r\<close>. An atom stands for one character it accepts, an atom under \<^verbatim>\<open>+\<close> for a
  non-empty run of such characters.
\<close>

fun rx_lang :: "item list \<Rightarrow> string \<Rightarrow> bool" where
  "rx_lang [] m = (m = [])"
| "rx_lang (One a # r) m = (\<exists>c m'. m = c # m' \<and> atom_ok a c \<and> rx_lang r m')"
| "rx_lang (Plus a # r) m =
     (\<exists>run m'. m = run @ m' \<and> run \<noteq> [] \<and> list_all (atom_ok a) run \<and> rx_lang r m')"

text \<open>\<open>s\<close> has a substring that the pattern matches.\<close>

definition rx_occurs :: "item list \<Rightarrow> string \<Rightarrow> bool" where
  "rx_occurs r s = (\<exists>pre m post. s = pre @ m @ post \<and> rx_lang r m)"

text \<open>
  Among the ways of matching at one position, the matcher tries first one that consumes
  the most input.
\<close>

definition greedy_first :: "item list \<Rightarrow> bool" where
  "greedy_first r =
     (\<forall>s rest. rest \<in> set (rx_all r s) \<longrightarrow> length (hd (rx_all r s)) \<le> length rest)"

text \<open>The two patterns written out: a dotted quad, and MC in either case before digits.\<close>

definition digit_run :: "string \<Rightarrow> bool" where
  "digit_run ds = (ds \<noteq> [] \<and> list_all is_digit ds)"

definition dotted_quad :: "string \<Rightarrow> bool" where
  "dotted_quad m =
     (\<exists>a b c d. m = a @ ''.'' @ b @ ''.'' @ c @ ''.'' @ d \<and>
        digit_run a \<and> digit_run b \<and> digit_run c \<and> digit_run d)"

definition has_ipv4 :: "string \<Rightarrow> bool" where
  "has_ipv4 s = (\<exists>pre m post. s = pre @ m @ post \<and> dotted_quad m)"

definition mc_digits :: "string \<Rightarrow> bool" where
  "mc_digits m =
     (\<exists>l1 l2 ds. m = l1 # l2 # ds \<and> (l1 = CHR ''M'' \<or> l1 = CHR ''m'') \<and>
        (l2 = CHR ''C'' \<or> l2 = CHR ''c'') \<and> digit_run ds)"

definition has_mc :: "string \<Rightarrow> bool" where
  "has_mc s = (\<exists>pre m post. s = pre @ m @ post \<and> mc_digits m)"

text \<open>
  The local networks in the words of the specification: split on commas, trim each
  piece, then exclude the pieces that contain one of the two reserved substrings.
\<close>

definition spec_localNetworks :: "string \<Rightarrow> string list" where
  "spec_localNetworks field =
     filter (\<lambda>piece. \<not> sublist ''100.100.100'' piece \<and> \<not> sublist ''172.16.100'' piece)
       (map trim (split (CHR '','') field))"

text \<open>No entry of the local networks holds the tunnel address.\<close>

definition tunnel_entry_removed :: "WireGuardPeer \<Rightarrow> bool" where
  "tunnel_entry_removed peer =
     (\<not> list_ex (\<lambda>entry. sublist (wgIP (processPeer peer)) entry) (lans (processPeer peer)))"

text \<open>The pieces put together again, with the separator between them.\<close>

fun join :: "char \<Rightarrow> string list \<Rightarrow> string" where
  "join sep [] = []"
| "join sep [piece] = piece"
| "join sep (piece # pieces) = piece @ sep # join sep pieces"

text \<open>The closed set of statuses.\<close>

definition known_status :: "string \<Rightarrow> bool" where
  "known_status st = (st \<in> {''active'', ''inactive'', ''reserved-ddns'', ''static-override''})"

text \<open>A string of digits and dots only, as every dotted quad is.\<close>

definition address_chars :: "string \<Rightarrow> bool" where
  "address_chars s = list_all (\<lambda>c. is_digit c \<or> c = CHR ''.'') s"

text \<open>A raw record with the given name, comment, last handshake and allowed addresses.\<close>

definition raw_peer ::
  "string option \<Rightarrow> string option \<Rightarrow> string option \<Rightarrow> string \<Rightarrow> WireGuardPeer" where
  "raw_peer nm cm lh allowed =
     \<lparr> WireGuardPeer.id = ''*1'', allowed_address = allowed, client_endpoint = [],
       WireGuardPeer.comment = cm, current_endpoint_address = None, interface = ''wg0'',
       last_handshake = lh, WireGuardPeer.name = nm, disabled = None \<rparr>"

lemma allowed_raw_peer: "allowed_address (raw_peer nm cm lh allowed) = allowed"
  by (simp add: raw_peer_def)

lemma name_raw_peer:
  "ProcessedPeer.name (processPeer (raw_peer (Some (c # cs)) cm lh allowed)) = c # cs"
  by (simp add: processPeer_def peer_name_def or_else_def raw_peer_def)

section \<open>The matcher finds the leftmost occurrence, and the longest one there\<close>

lemma le_length_takeWhile:
  "n \<le> length (takeWhile P s) \<longleftrightarrow> n \<le> length s \<and> list_all P (take n s)"
proof (induction s arbitrary: n)
  case Nil
  then show ?case by simp
next
  case (Cons c cs)
  then show ?case by (cases n) auto
qed

lemma rx_all_iff:
  "rest \<in> set (rx_all r s) \<longleftrightarrow> (\<exists>m. s = m @ rest \<and> rx_lang r m)"
proof (induction r s arbitrary: rest rule: rx_all.induct)
  case (1 s)
  then show ?case by auto
next
  case (2 a r s)
  then show ?case by (cases s) auto
next
  case (3 a r s)
  have "rest \<in> set (rx_all (Plus a # r) s) \<longleftrightarrow>
        (\<exists>n. 1 \<le> n \<and> n \<le> length (takeWhile (atom_ok a) s) \<and> rest \<in> set (rx_all r (drop n s)))"
    by auto
  also have "\<dots> \<longleftrightarrow> (\<exists>n. 1 \<le> n \<and> n \<le> length s \<and> list_all (atom_ok a) (take n s) \<and>
                  (\<exists>m. drop n s = m @ rest \<and> rx_lang r m))"
  proof -
    have IH: "(rest \<in> set (rx_all r (drop n s))) = (\<exists>m. drop n s = m @ rest \<and> rx_lang r m)"
      if "1 \<le> n" "n \<le> length (takeWhile (atom_ok a) s)" for n
      using that by (intro "3.IH") auto
    show ?thesis
      using IH by (metis le_length_takeWhile)
  qed
  also have "\<dots> \<longleftrightarrow> (\<exists>m. s = m @ rest \<and> rx_lang (Plus a # r) m)"
  proof
    assume "\<exists>n. 1 \<le> n \<and> n \<le> length s \<and> list_all (atom_ok a) (take n s) \<and>
                  (\<exists>m. drop n s = m @ rest \<and> rx_lang r m)"
    then obtain n m where n: "1 \<le> n" "n \<le> length s" "list_all (atom_ok a) (take n s)"
      and m: "drop n s = m @ rest" "rx_lang r m" by blast
    have "s = (take n s @ m) @ rest" using m(1) by (metis append_assoc append_take_drop_id)
    moreover have "take n s \<noteq> []" using n by auto
    then have "rx_lang (Plus a # r) (take n s @ m)"
      unfolding rx_lang.simps using n(3) m(2) by blast
    ultimately show "\<exists>m. s = m @ rest \<and> rx_lang (Plus a # r) m"
      by blast
  next
    assume "\<exists>m. s = m @ rest \<and> rx_lang (Plus a # r) m"
    then obtain run m' where s: "s = (run @ m') @ rest" and run: "run \<noteq> []" "list_all (atom_ok a) run"
      and m': "rx_lang r m'" by auto
    show "\<exists>n. 1 \<le> n \<and> n \<le> length s \<and> list_all (atom_ok a) (take n s) \<and>
                  (\<exists>m. drop n s = m @ rest \<and> rx_lang r m)"
      using s run m' by (intro exI[of _ "length run"]) (auto simp: Suc_le_eq)
  qed
  finally show ?case .
qed

lemma rx_first_None:
  "rx_first r s = None \<longleftrightarrow> \<not> (\<exists>m rest. s = m @ rest \<and> rx_lang r m)"
proof -
  have "rx_first r s = None \<longleftrightarrow> set (rx_all r s) = {}"
    by (auto simp: rx_first_def split: list.splits)
  also have "\<dots> \<longleftrightarrow> \<not> (\<exists>rest. rest \<in> set (rx_all r s))" by auto
  finally show ?thesis unfolding rx_all_iff by blast
qed

lemma rx_first_Some:
  assumes "rx_first r s = Some m"
  shows "\<exists>rest. s = m @ rest \<and> rx_lang r m"
proof -
  from assms obtain rest rs where all: "rx_all r s = rest # rs"
    and m: "m = take (length s - length rest) s"
    by (auto simp: rx_first_def split: list.splits)
  from all have "rest \<in> set (rx_all r s)" by simp
  then obtain m' where "s = m' @ rest" "rx_lang r m'" unfolding rx_all_iff by blast
  with m show ?thesis by auto
qed

lemma rx_exec_None: "rx_exec r s = None \<longleftrightarrow> \<not> rx_occurs r s"
  unfolding rx_occurs_def
proof (induction s)
  case Nil
  then show ?case by (auto simp: rx_first_None)
next
  case (Cons c cs)
  have "(\<exists>pre m post. c # cs = pre @ m @ post \<and> rx_lang r m) \<longleftrightarrow>
        (\<exists>m post. c # cs = m @ post \<and> rx_lang r m) \<or>
        (\<exists>pre m post. cs = pre @ m @ post \<and> rx_lang r m)"
  proof -
    have "(\<exists>pre m post. c # cs = pre @ m @ post \<and> rx_lang r m) \<longleftrightarrow>
          (\<exists>m post. c # cs = [] @ m @ post \<and> rx_lang r m) \<or>
          (\<exists>pre m post. c # cs = (c # pre) @ m @ post \<and> rx_lang r m)"
      apply (rule iffI)
      subgoal by (metis append_Nil append_Cons list.inject neq_Nil_conv)
      subgoal by blast
      done
    then show ?thesis by simp
  qed
  moreover have "rx_exec r (c # cs) = None \<longleftrightarrow> rx_first r (c # cs) = None \<and> rx_exec r cs = None"
    by (simp split: option.splits)
  ultimately show ?case
    using Cons by (simp add: rx_first_None)
qed

lemma rx_all_last_Plus:
  "rx_all [Plus a] s = map (\<lambda>n. drop n s) (rev [1 ..< Suc (length (takeWhile (atom_ok a) s))])"
  by (simp add: concat_map_singleton del: upt_Suc)

lemma greedy_first_last_Plus: "greedy_first [Plus a]"
  unfolding greedy_first_def
proof (intro allI impI)
  fix s rest
  let ?k = "length (takeWhile (atom_ok a) s)"
  assume "rest \<in> set (rx_all [Plus a] s)"
  then obtain n where n: "1 \<le> n" "n \<le> ?k" and rest: "rest = drop n s"
    unfolding rx_all_last_Plus by auto
  from n have "rev [1 ..< Suc ?k] = ?k # rev [1 ..< ?k]" by simp
  then have "hd (rx_all [Plus a] s) = drop ?k s"
    unfolding rx_all_last_Plus by simp
  with n rest show "length (hd (rx_all [Plus a] s)) \<le> length rest" by simp
qed

lemma greedy_first_One: "greedy_first r \<Longrightarrow> greedy_first (One a # r)"
  unfolding greedy_first_def
  by (auto split: list.splits if_splits)

lemma drop_in_run:
  assumes "n < length (takeWhile P s)"
  shows "\<exists>c cs. drop n s = c # cs \<and> P c"
proof -
  from assms have n: "n < length s"
    using length_takeWhile_le [of P s] by simp
  have "P (takeWhile P s ! n)"
    using assms by (meson nth_mem set_takeWhileD)
  then have "P (s ! n)" using assms by (simp add: takeWhile_nth)
  with n show ?thesis by (metis Cons_nth_drop_Suc)
qed

lemma rx_all_digits_dot:
  "rx_all (Plus Digit # One (Chr (CHR ''.'')) # r) s =
     (if takeWhile is_digit s = [] then []
      else rx_all (One (Chr (CHR ''.'')) # r) (dropWhile is_digit s))"
proof -
  let ?k = "length (takeWhile is_digit s)"
  let ?f = "\<lambda>n. rx_all (One (Chr (CHR ''.'')) # r) (drop n s)"
  have short: "?f n = []" if "n < ?k" for n
  proof -
    from drop_in_run [OF that] obtain c cs where "drop n s = c # cs" "is_digit c" by blast
    moreover from this have "c \<noteq> CHR ''.''" by (auto simp: is_digit_def)
    ultimately show ?thesis by simp
  qed
  have ks: "concat (map ?f (rev [1 ..< k])) = []" if "k \<le> ?k" for k
    using that short by (induction k) auto
  have atom: "atom_ok Digit = is_digit" by (rule ext) simp
  show ?thesis
  proof (cases "?k = 0")
    case True
    then show ?thesis by (simp add: atom)
  next
    case False
    then have "rev [1 ..< Suc ?k] = ?k # rev [1 ..< ?k]" by (simp add: Suc_le_eq)
    then have "rx_all (Plus Digit # One (Chr (CHR ''.'')) # r) s = ?f ?k @ concat (map ?f (rev [1 ..< ?k]))"
      by (simp add: atom del: upt_Suc rx_all.simps(2))
    also have "\<dots> = ?f ?k" using ks [of ?k] by simp
    also have "drop ?k s = dropWhile is_digit s" by (simp add: dropWhile_eq_drop)
    finally show ?thesis using False by simp
  qed
qed

lemma greedy_first_digits_dot:
  "greedy_first (One (Chr (CHR ''.'')) # r) \<Longrightarrow> greedy_first (Plus Digit # One (Chr (CHR ''.'')) # r)"
  unfolding greedy_first_def rx_all_digits_dot by (simp del: rx_all.simps)

lemma greedy_first_ipv4: "greedy_first ipv4_regex"
  unfolding ipv4_regex_def
  by (intro greedy_first_digits_dot greedy_first_One greedy_first_last_Plus)

lemma greedy_first_mc: "greedy_first mc_regex"
  unfolding mc_regex_def
  by (intro greedy_first_One greedy_first_last_Plus)

lemma rx_first_longest:
  assumes "greedy_first r" and "rx_first r s = Some m" and "s = m' @ rest'" and "rx_lang r m'"
  shows "length m' \<le> length m"
proof -
  from assms(2) obtain rest rs where all: "rx_all r s = rest # rs"
    and m: "m = take (length s - length rest) s"
    by (auto simp: rx_first_def split: list.splits)
  from assms(3,4) have "rest' \<in> set (rx_all r s)" unfolding rx_all_iff by blast
  with assms(1) all have "length rest \<le> length rest'" unfolding greedy_first_def by fastforce
  moreover from all have "rest \<in> set (rx_all r s)" by simp
  then obtain m0 where m0: "s = m0 @ rest" unfolding rx_all_iff by blast
  moreover from m0 assms(3) have "length m' + length rest' = length m0 + length rest"
    by (metis length_append)
  moreover from m m0 have "m = m0" by simp
  ultimately show ?thesis by simp
qed

lemma rx_exec_Some_longest:
  assumes "greedy_first r"
  shows "rx_exec r s = Some m \<Longrightarrow>
     \<exists>pre post. s = pre @ m @ post \<and> rx_lang r m \<and>
       (\<forall>pre' m' post'. s = pre' @ m' @ post' \<and> rx_lang r m' \<longrightarrow>
          length pre \<le> length pre' \<and> (length pre' = length pre \<longrightarrow> length m' \<le> length m))"
proof (induction s)
  case Nil
  then obtain rest where "[] = m @ rest" "rx_lang r m" using rx_first_Some by fastforce
  then show ?case by (intro exI[of _ "[]"]) auto
next
  case (Cons c cs)
  show ?case
  proof (cases "rx_first r (c # cs)")
    case (Some m0)
    with Cons.prems have f: "rx_first r (c # cs) = Some m" by simp
    then obtain rest where r: "c # cs = m @ rest" "rx_lang r m" using rx_first_Some by blast
    have "length m' \<le> length m" if "c # cs = pre' @ m' @ post'" "rx_lang r m'" "length pre' = 0" for pre' m' post'
      using rx_first_longest [OF assms f _ that(2), of post'] that by simp
    with r show ?thesis by (intro exI[of _ "[]"] exI[of _ rest]) auto
  next
    case None
    with Cons.prems have "rx_exec r cs = Some m" by simp
    from Cons.IH[OF this] obtain pre post where cs: "cs = pre @ m @ post" and m: "rx_lang r m"
      and least: "\<And>pre' m' post'. cs = pre' @ m' @ post' \<Longrightarrow> rx_lang r m' \<Longrightarrow>
          length pre \<le> length pre' \<and> (length pre' = length pre \<longrightarrow> length m' \<le> length m)"
      by blast
    have "length (c # pre) \<le> length pre' \<and> (length pre' = length (c # pre) \<longrightarrow> length m' \<le> length m)"
      if "c # cs = pre' @ m' @ post'" "rx_lang r m'" for pre' m' post'
    proof (cases pre')
      case Nil
      with that None show ?thesis by (auto simp: rx_first_None)
    next
      case (Cons c' pre'')
      with that have "cs = pre'' @ m' @ post'" by simp
      from least[OF this that(2)] Cons show ?thesis by simp
    qed
    with cs m show ?thesis by (intro exI[of _ "c # pre"] exI[of _ post]) auto
  qed
qed

text \<open>What the two patterns denote.\<close>

lemma atom_ok_Digit: "atom_ok Digit = is_digit"
  by (rule ext) simp

lemma rx_lang_last_digits: "rx_lang [Plus Digit] m \<longleftrightarrow> digit_run m"
  unfolding rx_lang.simps digit_run_def atom_ok_Digit by simp

lemma rx_lang_digits_dot:
  "rx_lang (Plus Digit # One (Chr (CHR ''.'')) # r) m \<longleftrightarrow>
     (\<exists>a m'. m = a @ ''.'' @ m' \<and> digit_run a \<and> rx_lang r m')"
  unfolding rx_lang.simps digit_run_def atom_ok_Digit atom_ok.simps by auto

lemma rx_lang_ipv4: "rx_lang ipv4_regex m \<longleftrightarrow> dotted_quad m"
  unfolding ipv4_regex_def dotted_quad_def rx_lang_digits_dot rx_lang_last_digits
  by (metis append_assoc)

lemma rx_lang_mc: "rx_lang mc_regex m \<longleftrightarrow> mc_digits m"
  unfolding mc_regex_def mc_digits_def rx_lang.simps(2) rx_lang_last_digits atom_ok.simps
  by blast

lemma rx_occurs_ipv4: "rx_occurs ipv4_regex s \<longleftrightarrow> has_ipv4 s"
  by (simp add: rx_occurs_def has_ipv4_def rx_lang_ipv4)

lemma rx_occurs_mc: "rx_occurs mc_regex s \<longleftrightarrow> has_mc s"
  by (simp add: rx_occurs_def has_mc_def rx_lang_mc)

section \<open>Substring tests\<close>

lemma str_includes_iff: "str_includes s sub \<longleftrightarrow> sublist sub s"
proof (induction s)
  case Nil
  then show ?case by simp
next
  case (Cons c cs)
  then show ?case by (cases sub) (auto simp: sublist_Cons_right)
qed

lemma str_includes_single: "str_includes s [c] \<longleftrightarrow> c \<in> set s"
  by (induction s) auto

section \<open>Name resolution\<close>

text \<open>
  Claim C6. The normalized name is never the empty string; it is the display name when
  that is present and non-empty, else the comment when that is present and non-empty,
  else the fixed sentinel for unnamed peers.
\<close>

theorem name_resolution:
  "ProcessedPeer.name (processPeer peer) \<noteq> [] \<and>
   ProcessedPeer.name (processPeer peer) =
     (if WireGuardPeer.name peer \<noteq> None \<and> WireGuardPeer.name peer \<noteq> Some []
      then the (WireGuardPeer.name peer)
      else if WireGuardPeer.comment peer \<noteq> None \<and> WireGuardPeer.comment peer \<noteq> Some []
      then the (WireGuardPeer.comment peer)
      else ''Sin nombre'')"
  by (auto simp: processPeer_def peer_name_def or_else_def split: option.splits)

theorem name_resolution_witness:
  "ProcessedPeer.name (processPeer (raw_peer (Some ''MC7'') (Some ''Oficina'') None [])) = ''MC7'' \<and>
   ProcessedPeer.name (processPeer (raw_peer (Some []) (Some ''Oficina'') None [])) = ''Oficina'' \<and>
   ProcessedPeer.name (processPeer (raw_peer None None None [])) = ''Sin nombre''"
  using name_resolution [of "raw_peer (Some ''MC7'') (Some ''Oficina'') None []"]
    name_resolution [of "raw_peer (Some []) (Some ''Oficina'') None []"]
    name_resolution [of "raw_peer None None None []"]
  by (simp add: raw_peer_def)

section \<open>The tunnel address\<close>

lemma ipv4_exec_none: "rx_exec ipv4_regex ''fd00::1/128'' = None"
  by code_simp

lemma ipv4_exec_lan_first: "rx_exec ipv4_regex ''192.168.1.0/24,10.0.0.5'' = Some ''192.168.1.0''"
  by code_simp

lemma has_ipv4_lan_first: "has_ipv4 ''192.168.1.0/24,10.0.0.5''"
  using rx_exec_None [of ipv4_regex "''192.168.1.0/24,10.0.0.5''"]
  unfolding ipv4_exec_lan_first rx_occurs_ipv4 by simp

lemma no_ipv4_v6: "\<not> has_ipv4 ''fd00::1/128''"
  using rx_exec_None [of ipv4_regex "''fd00::1/128''"]
  unfolding ipv4_exec_none rx_occurs_ipv4 by simp

text \<open>
  Claim C5. When the allowed-address field contains a dotted quad, the tunnel address is
  a dotted quad occurring in the field, no dotted quad starts further left, and none
  starting at the same place is longer: it is the first match of the pattern, whichever
  entry it belongs to. When the field contains no dotted quad, the tunnel address is the
  sentinel \<^verbatim>\<open>N/A\<close>.
\<close>

theorem tunnel_address_first_ipv4:
  "(has_ipv4 (allowed_address peer) \<longrightarrow>
      (\<exists>pre post. allowed_address peer = pre @ wgIP (processPeer peer) @ post \<and>
         dotted_quad (wgIP (processPeer peer)) \<and>
         (\<forall>pre' m' post'. allowed_address peer = pre' @ m' @ post' \<and> dotted_quad m' \<longrightarrow>
            length pre \<le> length pre' \<and>
            (length pre' = length pre \<longrightarrow> length m' \<le> length (wgIP (processPeer peer)))))) \<and>
   (\<not> has_ipv4 (allowed_address peer) \<longrightarrow> wgIP (processPeer peer) = ''N/A'')"
proof (cases "rx_exec ipv4_regex (allowed_address peer)")
  case None
  then have "\<not> has_ipv4 (allowed_address peer)"
    by (simp add: rx_exec_None rx_occurs_ipv4)
  moreover from None have "wgIP (processPeer peer) = ''N/A''"
    by (simp add: processPeer_def peer_wgIP_def)
  ultimately show ?thesis by simp
next
  case (Some m)
  then have w: "wgIP (processPeer peer) = m"
    by (simp add: processPeer_def peer_wgIP_def)
  from Some have "has_ipv4 (allowed_address peer)"
    using rx_exec_None [of ipv4_regex "allowed_address peer"] by (simp add: rx_occurs_ipv4)
  then show ?thesis
    using rx_exec_Some_longest [OF greedy_first_ipv4 Some]
    unfolding w rx_lang_ipv4 by simp
qed

theorem tunnel_address_first_ipv4_witness:
  "has_ipv4 ''192.168.1.0/24,10.0.0.5'' \<and>
   dotted_quad (wgIP (processPeer (raw_peer None None None ''192.168.1.0/24,10.0.0.5''))) \<and>
   wgIP (processPeer (raw_peer None None None ''192.168.1.0/24,10.0.0.5'')) = ''192.168.1.0'' \<and>
   \<not> has_ipv4 ''fd00::1/128'' \<and>
   wgIP (processPeer (raw_peer None None None ''fd00::1/128'')) = ''N/A''"
proof -
  have "dotted_quad (wgIP (processPeer (raw_peer None None None ''192.168.1.0/24,10.0.0.5'')))"
    using tunnel_address_first_ipv4 [of "raw_peer None None None ''192.168.1.0/24,10.0.0.5''"]
      has_ipv4_lan_first
    unfolding allowed_raw_peer by blast
  moreover have "wgIP (processPeer (raw_peer None None None ''fd00::1/128'')) = ''N/A''"
    using tunnel_address_first_ipv4 [of "raw_peer None None None ''fd00::1/128''"] no_ipv4_v6
    unfolding allowed_raw_peer by blast
  moreover have "wgIP (processPeer (raw_peer None None None ''192.168.1.0/24,10.0.0.5'')) = ''192.168.1.0''"
    unfolding processPeer_def peer_wgIP_def allowed_raw_peer ipv4_exec_lan_first by simp
  ultimately show ?thesis
    using has_ipv4_lan_first no_ipv4_v6 by blast
qed

section \<open>The local networks\<close>

text \<open>
  \<open>split\<close> cuts at every separator and nowhere else: the pieces contain no separator and
  joined again give the input. \<open>trim\<close> removes white space from both ends, and only that.
\<close>

lemma split_not_Nil: "split sep s \<noteq> []"
  by (induction s) (auto split: list.splits)

lemma join_split: "join sep (split sep s) = s"
proof (induction s)
  case Nil
  then show ?case by simp
next
  case (Cons c cs)
  obtain piece pieces where sp: "split sep cs = piece # pieces"
    using split_not_Nil [of sep cs] by (cases "split sep cs") auto
  with Cons show ?case by (cases pieces) auto
qed

lemma split_no_sep: "piece \<in> set (split sep s) \<Longrightarrow> sep \<notin> set piece"
proof (induction s arbitrary: piece)
  case Nil
  then show ?case by simp
next
  case (Cons c cs)
  then show ?case by (auto split: if_splits list.splits)
qed

lemma trim_spec:
  "\<exists>l r. s = l @ trim s @ r \<and> list_all is_space l \<and> list_all is_space r \<and>
     (trim s = [] \<or> (\<not> is_space (hd (trim s)) \<and> \<not> is_space (last (trim s))))"
proof -
  let ?l = "takeWhile is_space s"
  let ?t = "dropWhile is_space s"
  let ?r = "rev (takeWhile is_space (rev ?t))"
  have t: "?t = trim s @ ?r"
    unfolding trim_def by (metis rev_append rev_rev_ident takeWhile_dropWhile_id)
  have s: "s = ?l @ trim s @ ?r"
    using t by (metis takeWhile_dropWhile_id)
  have l: "list_all is_space ?l" and r: "list_all is_space ?r"
    by (auto simp: list_all_iff dest: set_takeWhileD)
  have "\<not> is_space (hd (trim s)) \<and> \<not> is_space (last (trim s))" if ne: "trim s \<noteq> []"
  proof -
    from ne have "dropWhile is_space (rev ?t) \<noteq> []" by (simp add: trim_def)
    then have "\<not> is_space (hd (dropWhile is_space (rev ?t)))" by (rule hd_dropWhile)
    then have last: "\<not> is_space (last (trim s))" using ne by (simp add: trim_def last_rev)
    from ne t have "?t \<noteq> []" by (metis append_is_Nil_conv)
    then have "\<not> is_space (hd ?t)" by (rule hd_dropWhile)
    moreover from ne t have "hd ?t = hd (trim s)" by (metis hd_append2)
    ultimately show ?thesis using last by simp
  qed
  with s l r show ?thesis by blast
qed

text \<open>
  Trimming does not change whether a piece contains a string that neither starts nor ends
  with white space, so excluding before trimming, as the code does, and after it, as the
  specification says, give the same list.
\<close>

lemma sublist_dropWhile:
  assumes "sub \<noteq> []" and "\<not> P (hd sub)"
  shows "sublist sub (dropWhile P s) \<longleftrightarrow> sublist sub s"
proof (induction s)
  case Nil
  then show ?case by simp
next
  case (Cons c cs)
  show ?case
  proof (cases "P c")
    case True
    with assms have "\<not> prefix sub (c # cs)" by (cases sub) auto
    with True Cons show ?thesis by (simp add: sublist_Cons_right)
  next
    case False
    then show ?thesis by simp
  qed
qed

lemma sublist_trim:
  assumes "sub \<noteq> []" and "\<not> is_space (hd sub)" and "\<not> is_space (last sub)"
  shows "sublist sub (trim s) \<longleftrightarrow> sublist sub s"
proof -
  have r: "rev sub \<noteq> []" "\<not> is_space (hd (rev sub))"
    using assms by (simp_all add: hd_rev)
  have "sublist sub (trim s) \<longleftrightarrow> sublist (rev sub) (dropWhile is_space (rev (dropWhile is_space s)))"
    unfolding trim_def by (metis sublist_rev rev_rev_ident)
  also have "\<dots> \<longleftrightarrow> sublist (rev sub) (rev (dropWhile is_space s))"
    using r by (rule sublist_dropWhile)
  also have "\<dots> \<longleftrightarrow> sublist sub (dropWhile is_space s)" by simp
  also have "\<dots> \<longleftrightarrow> sublist sub s" using assms(1,2) by (rule sublist_dropWhile)
  finally show ?thesis .
qed

lemma reserved_trim:
  "str_includes (trim s) ''100.100.100'' = str_includes s ''100.100.100''"
  "str_includes (trim s) ''172.16.100'' = str_includes s ''172.16.100''"
  unfolding str_includes_iff by (rule sublist_trim; simp add: is_space_def)+

lemma spec_localNetworks_example:
  "spec_localNetworks '' b,a ,172.16.100.9,a'' = [''b'', ''a'', ''a'']"
  by code_simp

lemma ipv4_exec_two: "rx_exec ipv4_regex ''10.0.0.5/32,192.168.1.0/24'' = Some ''10.0.0.5''"
  by code_simp

lemma lans_two:
  "map trim (filter (\<lambda>addr. \<not> str_includes addr ''100.100.100'' \<and> \<not> str_includes addr ''172.16.100'')
          (split (CHR '','') ''10.0.0.5/32,192.168.1.0/24'')) = [''10.0.0.5/32'', ''192.168.1.0/24'']"
  by code_simp

lemma sublist_tunnel_entry: "sublist ''10.0.0.5'' ''10.0.0.5/32''"
  by code_simp

text \<open>
  Claim C4, as amended. The local networks are the allowed-address field split on
  commas, each piece trimmed, without exactly the pieces that contain one of the two
  reserved substrings; the order of the input is kept and duplicates stay. The piece
  that holds the tunnel address is treated like every other piece.
\<close>

theorem lans_split_trim_exclude:
  "lans (processPeer peer) = spec_localNetworks (allowed_address peer)"
  by (simp add: processPeer_def peer_lans_def spec_localNetworks_def filter_map comp_def
      reserved_trim str_includes_iff [symmetric] del: str_includes.simps)

theorem lans_split_trim_exclude_witness:
  "lans (processPeer (raw_peer None None None '' b,a ,172.16.100.9,a'')) = [''b'', ''a'', ''a'']"
  using lans_split_trim_exclude [of "raw_peer None None None '' b,a ,172.16.100.9,a''"]
  unfolding allowed_raw_peer spec_localNetworks_example .

text \<open>
  Claim C4 as stated adds that the sequence consists of the entries remaining after the
  tunnel address. For the field \<^verbatim>\<open>10.0.0.5/32,192.168.1.0/24\<close> the first piece holds the
  tunnel address and is the first local network.
\<close>

theorem lans_keep_tunnel_entry_counterexample:
  "\<not> (lans (processPeer (raw_peer None None None ''10.0.0.5/32,192.168.1.0/24'')) =
        spec_localNetworks (allowed_address (raw_peer None None None ''10.0.0.5/32,192.168.1.0/24'')) \<and>
      tunnel_entry_removed (raw_peer None None None ''10.0.0.5/32,192.168.1.0/24''))"
proof -
  have "wgIP (processPeer (raw_peer None None None ''10.0.0.5/32,192.168.1.0/24'')) = ''10.0.0.5''"
    unfolding processPeer_def peer_wgIP_def allowed_raw_peer ipv4_exec_two by simp
  moreover have "lans (processPeer (raw_peer None None None ''10.0.0.5/32,192.168.1.0/24'')) =
      [''10.0.0.5/32'', ''192.168.1.0/24'']"
    unfolding processPeer_def peer_lans_def allowed_raw_peer lans_two by simp
  ultimately show ?thesis
    unfolding tunnel_entry_removed_def using sublist_tunnel_entry by simp
qed

section \<open>Status classification\<close>

lemma isActive_iff:
  "isActive peer \<longleftrightarrow>
     (\<exists>lh. last_handshake peer = Some lh \<and> lh \<noteq> [] \<and>
           CHR ''h'' \<notin> set lh \<and> CHR ''d'' \<notin> set lh \<and> CHR ''w'' \<notin> set lh)"
  by (simp add: isActive_def str_includes_single split: option.splits)

lemma mcMatch_None: "mcMatch nm = None \<longleftrightarrow> \<not> has_mc nm"
  by (simp add: mcMatch_def rx_exec_None rx_occurs_mc)

text \<open>
  The group that is parsed: the digits of the leftmost occurrence of MC before digits,
  all of them up to the first character that is not a digit.
\<close>

lemma mcMatch_Some:
  assumes "mcMatch nm = Some group1"
  shows "\<exists>pre l1 l2 post. nm = pre @ l1 # l2 # group1 @ post \<and>
           (l1 = CHR ''M'' \<or> l1 = CHR ''m'') \<and> (l2 = CHR ''C'' \<or> l2 = CHR ''c'') \<and>
           digit_run group1 \<and>
           (\<forall>pre' m' post'. nm = pre' @ m' @ post' \<and> mc_digits m' \<longrightarrow>
              length pre \<le> length pre' \<and>
              (length pre' = length pre \<longrightarrow> length m' \<le> 2 + length group1))"
proof -
  from assms obtain m where m: "rx_exec mc_regex nm = Some m" and g: "group1 = drop 2 m"
    by (auto simp: mcMatch_def)
  from rx_exec_Some_longest [OF greedy_first_mc m] obtain pre post where
    nm: "nm = pre @ m @ post" and lang: "mc_digits m" and
    least: "\<forall>pre' m' post'. nm = pre' @ m' @ post' \<and> mc_digits m' \<longrightarrow>
          length pre \<le> length pre' \<and> (length pre' = length pre \<longrightarrow> length m' \<le> length m)"
    unfolding rx_lang_mc by blast
  from lang obtain l1 l2 ds where ds: "m = l1 # l2 # ds" and l: "l1 = CHR ''M'' \<or> l1 = CHR ''m''"
    "l2 = CHR ''C'' \<or> l2 = CHR ''c''" and run: "digit_run ds"
    unfolding mc_digits_def by blast
  from ds g have gd: "group1 = ds" by simp
  have len: "length m = 2 + length group1" unfolding ds gd by simp
  have "nm = pre @ l1 # l2 # group1 @ post" unfolding nm ds gd by simp
  with l run least show ?thesis unfolding len gd by blast
qed

lemma classify_precedence:
  "classify reservedMcs overrides status0 nm =
       (if parseInt group1 \<in> fst ` set overrides then ''static-override''
        else if parseInt group1 \<in> set reservedMcs then ''reserved-ddns''
        else status0)" if "mcMatch nm = Some group1"
proof -
  have "list_ex (\<lambda>s. fst s = n) overrides \<longleftrightarrow> n \<in> fst ` set overrides" for n
    by (force simp: list_ex_iff)
  then show ?thesis
    using that by (simp add: classify_def Let_def)
qed

lemma mc_exec_MC8: "rx_exec mc_regex ''MC8'' = Some ''MC8''"
  by code_simp
lemma mc_exec_MC7: "rx_exec mc_regex ''MC7'' = Some ''MC7''"
  by code_simp
lemma mc_exec_Oficina: "rx_exec mc_regex ''Oficina'' = None"
  by code_simp
lemma parseInt_8: "parseInt ''8'' = 8"
  by code_simp
lemma parseInt_7: "parseInt ''7'' = 7"
  by code_simp
lemma mc_exec_MC99: "rx_exec mc_regex ''MC99'' = Some ''MC99''"
  by code_simp
lemma parseInt_99: "parseInt ''99'' = 99"
  by code_simp

lemma has_mc_MC8: "has_mc ''MC8''"
  using rx_exec_None [of mc_regex "''MC8''"] unfolding mc_exec_MC8 rx_occurs_mc by simp

lemma has_mc_MC99: "has_mc ''MC99''"
  using rx_exec_None [of mc_regex "''MC99''"] unfolding mc_exec_MC99 rx_occurs_mc by simp

lemma no_mc_Oficina: "\<not> has_mc ''Oficina''"
  using rx_exec_None [of mc_regex "''Oficina''"] unfolding mc_exec_Oficina rx_occurs_mc by simp

text \<open>
  Claim C1. When the name contains a case-insensitive MC followed by digits, the match
  succeeds and the status follows the precedence static override, then reserved, then
  the handshake-based default: \<^verbatim>\<open>static-override\<close> if the number is a key of the
  override table (also when it is reserved as well), else \<^verbatim>\<open>reserved-ddns\<close> if it is
  reserved, else the default. This holds for the tables of the component and, for the
  same code, for any other pair of tables.
\<close>

theorem status_precedence:
  assumes "has_mc (ProcessedPeer.name (processPeer peer))"
  shows "\<exists>group1. mcMatch (ProcessedPeer.name (processPeer peer)) = Some group1 \<and>
     status (processPeer peer) =
       (if parseInt group1 \<in> fst ` set STATIC_OVERRIDES then ''static-override''
        else if parseInt group1 \<in> set DDNS_RESERVED_MCS then ''reserved-ddns''
        else default_status peer) \<and>
     (\<forall>reservedMcs overrides status0.
        classify reservedMcs overrides status0 (ProcessedPeer.name (processPeer peer)) =
          (if parseInt group1 \<in> fst ` set overrides then ''static-override''
           else if parseInt group1 \<in> set reservedMcs then ''reserved-ddns''
           else status0))"
proof -
  from assms obtain group1 where g: "mcMatch (ProcessedPeer.name (processPeer peer)) = Some group1"
    using mcMatch_None by (cases "mcMatch (ProcessedPeer.name (processPeer peer))") auto
  then have "mcMatch (peer_name peer) = Some group1" by (simp add: processPeer_def)
  then have "status (processPeer peer) =
       (if parseInt group1 \<in> fst ` set STATIC_OVERRIDES then ''static-override''
        else if parseInt group1 \<in> set DDNS_RESERVED_MCS then ''reserved-ddns''
        else default_status peer)"
    by (simp add: processPeer_def peer_status_def classify_precedence)
  with g show ?thesis using classify_precedence [OF g] by blast
qed

theorem status_precedence_witness:
  "has_mc (ProcessedPeer.name (processPeer (raw_peer (Some ''MC8'') None None []))) \<and>
   status (processPeer (raw_peer (Some ''MC8'') None None [])) = ''static-override'' \<and>
   has_mc (ProcessedPeer.name (processPeer (raw_peer (Some ''MC99'') None (Some ''15s'') []))) \<and>
   status (processPeer (raw_peer (Some ''MC99'') None (Some ''15s'') [])) = ''active'' \<and>
   classify [8] [(8, ''x'')] ''active'' ''MC8'' = ''static-override'' \<and>
   classify [8] [] ''active'' ''MC8'' = ''reserved-ddns'' \<and>
   classify [] [] ''active'' ''MC8'' = ''active''"
proof -
  have occ8: "has_mc (ProcessedPeer.name (processPeer (raw_peer (Some ''MC8'') None None [])))"
    unfolding name_raw_peer by (rule has_mc_MC8)
  have occ99: "has_mc (ProcessedPeer.name (processPeer (raw_peer (Some ''MC99'') None (Some ''15s'') [])))"
    unfolding name_raw_peer by (rule has_mc_MC99)
  have g8: "mcMatch ''MC8'' = Some ''8''"
    by (simp add: mcMatch_def mc_exec_MC8 del: rx_exec.simps)
  have g99: "mcMatch ''MC99'' = Some ''99''"
    by (simp add: mcMatch_def mc_exec_MC99 del: rx_exec.simps)
  have d99: "default_status (raw_peer (Some ''MC99'') None (Some ''15s'') []) = ''active''"
    by (simp add: default_status_def isActive_iff raw_peer_def)
  have "status (processPeer (raw_peer (Some ''MC8'') None None [])) = ''static-override'' \<and>
     classify [8] [(8, ''x'')] ''active'' ''MC8'' = ''static-override'' \<and>
     classify [8] [] ''active'' ''MC8'' = ''reserved-ddns'' \<and>
     classify [] [] ''active'' ''MC8'' = ''active''"
    using status_precedence [OF occ8]
    by (simp add: name_raw_peer g8 parseInt_8 STATIC_OVERRIDES_def)
  moreover have "status (processPeer (raw_peer (Some ''MC99'') None (Some ''15s'') [])) = ''active''"
    using status_precedence [OF occ99]
    by (simp add: name_raw_peer g99 parseInt_99 d99 STATIC_OVERRIDES_def DDNS_RESERVED_MCS_def)
  ultimately show ?thesis using occ8 occ99 by simp
qed

text \<open>
  Claim C2. When the name yields no match of MC followed by digits, the status is
  \<^verbatim>\<open>active\<close> exactly when the last handshake is present, non-empty and contains none
  of the markers \<^verbatim>\<open>h\<close>, \<^verbatim>\<open>d\<close>, \<^verbatim>\<open>w\<close>, and \<^verbatim>\<open>inactive\<close> otherwise; an empty or
  missing last handshake gives \<^verbatim>\<open>inactive\<close>, and \<^verbatim>\<open>15s\<close> gives \<^verbatim>\<open>active\<close>.
\<close>

theorem default_status_without_mc:
  assumes "\<not> has_mc (ProcessedPeer.name (processPeer peer))"
  shows "(status (processPeer peer) = ''active'' \<longleftrightarrow>
            (\<exists>lh. last_handshake peer = Some lh \<and> lh \<noteq> [] \<and>
                  CHR ''h'' \<notin> set lh \<and> CHR ''d'' \<notin> set lh \<and> CHR ''w'' \<notin> set lh)) \<and>
         (status (processPeer peer) = ''inactive'' \<longleftrightarrow>
            \<not> (\<exists>lh. last_handshake peer = Some lh \<and> lh \<noteq> [] \<and>
                  CHR ''h'' \<notin> set lh \<and> CHR ''d'' \<notin> set lh \<and> CHR ''w'' \<notin> set lh)) \<and>
         (last_handshake peer = None \<or> last_handshake peer = Some [] \<longrightarrow>
            status (processPeer peer) = ''inactive'') \<and>
         (last_handshake peer = Some ''15s'' \<longrightarrow> status (processPeer peer) = ''active'')"
proof -
  from assms have "mcMatch (peer_name peer) = None"
    by (simp add: mcMatch_None processPeer_def)
  then have st: "status (processPeer peer) = (if isActive peer then ''active'' else ''inactive'')"
    by (simp add: processPeer_def peer_status_def classify_def default_status_def)
  have "isActive peer" if "last_handshake peer = Some ''15s''"
    using that by (simp add: isActive_iff)
  moreover have "\<not> isActive peer" if "last_handshake peer = None \<or> last_handshake peer = Some []"
    using that by (auto simp: isActive_iff)
  ultimately show ?thesis
    unfolding st isActive_iff [symmetric] by auto
qed

theorem default_status_without_mc_witness:
  "\<not> has_mc (ProcessedPeer.name (processPeer (raw_peer (Some ''Oficina'') None (Some ''15s'') []))) \<and>
   status (processPeer (raw_peer (Some ''Oficina'') None (Some ''15s'') [])) = ''active'' \<and>
   status (processPeer (raw_peer (Some ''Oficina'') None (Some ''2d3h'') [])) = ''inactive'' \<and>
   status (processPeer (raw_peer (Some ''Oficina'') None (Some []) [])) = ''inactive'' \<and>
   status (processPeer (raw_peer (Some ''Oficina'') None None [])) = ''inactive''"
proof -
  have no: "\<not> has_mc (ProcessedPeer.name (processPeer (raw_peer (Some ''Oficina'') None lh [])))" for lh
    unfolding name_raw_peer by (rule no_mc_Oficina)
  show ?thesis
    using default_status_without_mc [OF no [of "Some ''15s''"]]
      default_status_without_mc [OF no [of "Some ''2d3h''"]]
      default_status_without_mc [OF no [of "Some []"]]
      default_status_without_mc [OF no [of None]] no [of "Some ''15s''"]
    by (simp add: raw_peer_def)
qed

section \<open>Empty and absent fields\<close>

text \<open>
  Claim C10. An optional field holding the empty string is treated exactly like an absent
  one: the two records are processed to the same result, for the name, the comment, the
  last handshake and the endpoint address. An empty name falls through to the comment and
  then to the sentinel, an empty last handshake is displayed as \<^verbatim>\<open>never\<close> and gives the
  default status \<^verbatim>\<open>inactive\<close>, an empty endpoint address becomes \<^verbatim>\<open>N/A\<close>, and an absent
  comment becomes the empty string.
\<close>

theorem empty_field_like_absent:
  "processPeer (peer\<lparr>WireGuardPeer.name := Some []\<rparr>) = processPeer (peer\<lparr>WireGuardPeer.name := None\<rparr>) \<and>
   processPeer (peer\<lparr>WireGuardPeer.comment := Some []\<rparr>) = processPeer (peer\<lparr>WireGuardPeer.comment := None\<rparr>) \<and>
   processPeer (peer\<lparr>last_handshake := Some []\<rparr>) = processPeer (peer\<lparr>last_handshake := None\<rparr>) \<and>
   processPeer (peer\<lparr>current_endpoint_address := Some []\<rparr>) =
     processPeer (peer\<lparr>current_endpoint_address := None\<rparr>) \<and>
   ProcessedPeer.name (processPeer (peer\<lparr>WireGuardPeer.name := Some []\<rparr>)) =
     (if WireGuardPeer.comment peer \<noteq> None \<and> WireGuardPeer.comment peer \<noteq> Some []
      then the (WireGuardPeer.comment peer) else ''Sin nombre'') \<and>
   lastHandshake (processPeer (peer\<lparr>last_handshake := Some []\<rparr>)) = ''never'' \<and>
   default_status (peer\<lparr>last_handshake := Some []\<rparr>) = ''inactive'' \<and>
   endpointAddress (processPeer (peer\<lparr>current_endpoint_address := Some []\<rparr>)) = ''N/A'' \<and>
   ProcessedPeer.comment (processPeer (peer\<lparr>WireGuardPeer.comment := None\<rparr>)) = []"
  by (auto simp: processPeer_def peer_name_def peer_wgIP_def peer_lans_def peer_status_def
      default_status_def isActive_def or_else_def split: option.splits)

theorem empty_field_like_absent_witness:
  "processPeer (raw_peer (Some []) (Some ''Oficina'') (Some ''15s'') []) =
     processPeer (raw_peer None (Some ''Oficina'') (Some ''15s'') []) \<and>
   ProcessedPeer.name (processPeer (raw_peer (Some []) (Some ''Oficina'') (Some ''15s'') [])) = ''Oficina'' \<and>
   lastHandshake (processPeer (raw_peer None (Some ''Oficina'') (Some []) [])) = ''never''"
  using empty_field_like_absent [of "raw_peer None (Some ''Oficina'') (Some ''15s'') []"]
  by (elim conjE) (simp add: raw_peer_def)

section \<open>The scenario of the record named MC7\<close>

lemma ipv4_exec_scenario:
  "rx_exec ipv4_regex ''10.0.0.5/32,192.168.1.0/24,172.16.100.5'' = Some ''10.0.0.5''"
  by code_simp

lemma lans_scenario:
  "map trim (filter (\<lambda>addr. \<not> str_includes addr ''100.100.100'' \<and> \<not> str_includes addr ''172.16.100'')
          (split (CHR '','') ''10.0.0.5/32,192.168.1.0/24,172.16.100.5'')) = [''10.0.0.5/32'', ''192.168.1.0/24'']"
  by code_simp

text \<open>
  Claim C3, as amended. For a record with allowed addresses
  \<^verbatim>\<open>10.0.0.5/32,192.168.1.0/24,172.16.100.5\<close>, name \<^verbatim>\<open>MC7\<close> and last handshake
  \<^verbatim>\<open>2d3h\<close>, the tunnel address is \<^verbatim>\<open>10.0.0.5\<close>, the local networks are
  \<^verbatim>\<open>10.0.0.5/32\<close> and \<^verbatim>\<open>192.168.1.0/24\<close> (only the entry in 172.16.100 is excluded; the
  entry holding the tunnel address contains neither reserved substring and stays), and
  the status is \<^verbatim>\<open>reserved-ddns\<close> although the handshake alone gives \<^verbatim>\<open>inactive\<close>.
\<close>

theorem scenario_mc7:
  assumes "allowed_address peer = ''10.0.0.5/32,192.168.1.0/24,172.16.100.5''"
    and "WireGuardPeer.name peer = Some ''MC7''"
    and "last_handshake peer = Some ''2d3h''"
  shows "wgIP (processPeer peer) = ''10.0.0.5'' \<and>
         lans (processPeer peer) = [''10.0.0.5/32'', ''192.168.1.0/24''] \<and>
         status (processPeer peer) = ''reserved-ddns'' \<and>
         default_status peer = ''inactive''"
proof -
  have "wgIP (processPeer peer) = ''10.0.0.5''"
    using assms(1) by (simp add: processPeer_def peer_wgIP_def ipv4_exec_scenario del: rx_exec.simps)
  moreover have "lans (processPeer peer) = [''10.0.0.5/32'', ''192.168.1.0/24'']"
    using assms(1) lans_scenario by (simp add: processPeer_def peer_lans_def del: split.simps str_includes.simps)
  moreover have d: "default_status peer = ''inactive''"
    using assms(3) by (simp add: default_status_def isActive_iff)
  moreover have "peer_name peer = ''MC7''"
    using assms(2) by (simp add: peer_name_def or_else_def)
  then have "status (processPeer peer) = ''reserved-ddns''"
    by (simp add: processPeer_def peer_status_def classify_def mcMatch_def mc_exec_MC7 parseInt_7
        DDNS_RESERVED_MCS_def STATIC_OVERRIDES_def del: rx_exec.simps)
  ultimately show ?thesis by simp
qed

theorem scenario_mc7_witness:
  "wgIP (processPeer (raw_peer (Some ''MC7'') None (Some ''2d3h'') ''10.0.0.5/32,192.168.1.0/24,172.16.100.5'')) = ''10.0.0.5'' \<and>
   lans (processPeer (raw_peer (Some ''MC7'') None (Some ''2d3h'') ''10.0.0.5/32,192.168.1.0/24,172.16.100.5''))
     = [''10.0.0.5/32'', ''192.168.1.0/24''] \<and>
   status (processPeer (raw_peer (Some ''MC7'') None (Some ''2d3h'') ''10.0.0.5/32,192.168.1.0/24,172.16.100.5'')) = ''reserved-ddns''"
  using scenario_mc7 [of "raw_peer (Some ''MC7'') None (Some ''2d3h'') ''10.0.0.5/32,192.168.1.0/24,172.16.100.5''"]
  by (simp add: raw_peer_def)

text \<open>
  Claim C3 as stated, with the singleton list of local networks, fails on that record.
\<close>

theorem scenario_mc7_counterexample:
  "\<not> (wgIP (processPeer (raw_peer (Some ''MC7'') None (Some ''2d3h'') ''10.0.0.5/32,192.168.1.0/24,172.16.100.5'')) = ''10.0.0.5'' \<and>
      lans (processPeer (raw_peer (Some ''MC7'') None (Some ''2d3h'') ''10.0.0.5/32,192.168.1.0/24,172.16.100.5''))
        = [''192.168.1.0/24''] \<and>
      status (processPeer (raw_peer (Some ''MC7'') None (Some ''2d3h'') ''10.0.0.5/32,192.168.1.0/24,172.16.100.5'')) = ''reserved-ddns'')"
  using lans_scenario
  by (simp add: processPeer_def peer_lans_def raw_peer_def del: split.simps str_includes.simps)

section \<open>Statistics\<close>

lemma count_status_Cons:
  "count_status st (p # ps) = (if status p = st then 1 else 0) + count_status st ps"
  by (simp add: count_status_def)

lemma count_status_Nil: "count_status st [] = 0"
  by (simp add: count_status_def)

lemma counts_sum:
  "list_all (\<lambda>p. known_status (status p)) ps \<Longrightarrow>
     count_status ''active'' ps + count_status ''inactive'' ps +
     count_status ''reserved-ddns'' ps + count_status ''static-override'' ps = int (length ps)"
proof (induction ps)
  case Nil
  then show ?case by (simp add: count_status_Nil)
next
  case (Cons p ps)
  then have "known_status (status p)" by simp
  then consider "status p = ''active''" | "status p = ''inactive''" | "status p = ''reserved-ddns''"
    | "status p = ''static-override''" by (auto simp: known_status_def)
  then show ?case using Cons by cases (simp_all add: count_status_Cons)
qed

text \<open>Every record that \<open>processPeers\<close> returns has one of the four statuses.\<close>

lemma classify_known: "known_status st0 \<Longrightarrow> known_status (classify rs ovs st0 nm)"
  by (auto simp: classify_def known_status_def Let_def split: option.splits)

lemma default_status_known: "known_status (default_status peer)"
  by (simp add: default_status_def known_status_def)

lemma processPeer_known_status: "known_status (status (processPeer peer))"
  using classify_known [OF default_status_known]
  by (simp add: processPeer_def peer_status_def)

lemma processPeers_known_status:
  "list_all (\<lambda>p. known_status (status p)) (processPeers rawPeers)"
  by (simp add: processPeers_def list_all_iff processPeer_known_status)

text \<open>
  Claim C7. For every list of normalized peers, that is, every list whose statuses are
  among the four, the four per-status counts sum to the total, and the total is the
  length of the list. The lists that \<open>processPeers\<close> returns are such lists.
\<close>

theorem counts_sum_to_total:
  "(list_all (\<lambda>p. known_status (status p)) peersList \<longrightarrow>
      active (calculateStats peersList) + inactive (calculateStats peersList) +
      reserved (calculateStats peersList) + static (calculateStats peersList)
        = total (calculateStats peersList) \<and>
      total (calculateStats peersList) = int (length peersList)) \<and>
   active (calculateStats (processPeers rawPeers)) + inactive (calculateStats (processPeers rawPeers)) +
   reserved (calculateStats (processPeers rawPeers)) + static (calculateStats (processPeers rawPeers))
     = total (calculateStats (processPeers rawPeers)) \<and>
   total (calculateStats (processPeers rawPeers)) = int (length rawPeers)"
  using counts_sum [of peersList] counts_sum [OF processPeers_known_status [of rawPeers]]
  by (simp add: calculateStats_def processPeers_def)

theorem counts_sum_to_total_witness:
  "list_all (\<lambda>p. known_status (status p))
     (processPeers [raw_peer (Some ''MC7'') None (Some ''2d3h'') [], raw_peer None None (Some ''15s'') []]) \<and>
   active (calculateStats
     (processPeers [raw_peer (Some ''MC7'') None (Some ''2d3h'') [], raw_peer None None (Some ''15s'') []])) +
   inactive (calculateStats
     (processPeers [raw_peer (Some ''MC7'') None (Some ''2d3h'') [], raw_peer None None (Some ''15s'') []])) +
   reserved (calculateStats
     (processPeers [raw_peer (Some ''MC7'') None (Some ''2d3h'') [], raw_peer None None (Some ''15s'') []])) +
   static (calculateStats
     (processPeers [raw_peer (Some ''MC7'') None (Some ''2d3h'') [], raw_peer None None (Some ''15s'') []])) = 2"
  using counts_sum_to_total
      [of "processPeers [raw_peer (Some ''MC7'') None (Some ''2d3h'') [], raw_peer None None (Some ''15s'') []]"
          "[raw_peer (Some ''MC7'') None (Some ''2d3h'') [], raw_peer None None (Some ''15s'') []]"]
    processPeers_known_status
      [of "[raw_peer (Some ''MC7'') None (Some ''2d3h'') [], raw_peer None None (Some ''15s'') []]"]
  by simp

text \<open>
  Claim C8. The available field is 200 minus the total as exact integer arithmetic, with
  no clamping: for a list of 205 peers it is -5.
\<close>

theorem available_not_clamped:
  "available (calculateStats peersList) = 200 - int (length peersList) \<and>
   (length peersList = 205 \<longrightarrow> available (calculateStats peersList) = - 5)"
  by (simp add: calculateStats_def)

theorem available_not_clamped_witness:
  "length (replicate 205 (processPeer (raw_peer None None None []))) = 205 \<and>
   available (calculateStats (replicate 205 (processPeer (raw_peer None None None [])))) = - 5"
  using available_not_clamped [of "replicate 205 (processPeer (raw_peer None None None []))"]
  by simp

section \<open>The search\<close>

text \<open>
  The comparison with the tunnel address does not lower-case either side. On a string of
  digits and dots this makes no difference: a query found in it has no letters, and a
  query with the same lower-case form is then the same query. So the search does not
  depend on the case of the query when every tunnel address is a dotted quad; the
  records from \<open>processPeers\<close> carry a dotted quad or the sentinel \<^verbatim>\<open>N/A\<close>.
\<close>

lemma lower_char_below_a:
  assumes "lower_char d = c" and "(of_char c :: nat) < 97"
  shows "d = c"
proof (rule ccontr)
  assume "d \<noteq> c"
  with assms(1) have up: "(65 \<le> (of_char d :: nat) \<and> (of_char d :: nat) \<le> 90) \<or>
      (192 \<le> (of_char d :: nat) \<and> (of_char d :: nat) \<le> 222 \<and> (of_char d :: nat) \<noteq> 215)"
    and c: "c = char_of ((of_char d :: nat) + 32)"
    by (auto simp: lower_char_def Let_def split: if_splits)
  from c have "(of_char c :: nat) = ((of_char d :: nat) + 32) mod 256"
    by (simp only: of_char_of)
  with up have "(of_char c :: nat) = (of_char d :: nat) + 32" by auto
  with up assms(2) show False by auto
qed

lemma address_char_code:
  assumes "is_digit c \<or> c = CHR ''.''"
  shows "(of_char c :: nat) < 65"
  using assms by (auto simp: is_digit_def)

lemma address_char_lower:
  assumes "is_digit c \<or> c = CHR ''.''"
  shows "lower_char c = c"
  using address_char_code [OF assms] by (simp add: lower_char_def Let_def)

lemma toLowerCase_address: "address_chars s \<Longrightarrow> toLowerCase s = s"
  by (induction s) (auto simp: toLowerCase_def address_chars_def address_char_lower)

lemma toLowerCase_eq_address:
  "address_chars s \<Longrightarrow> toLowerCase q = s \<Longrightarrow> q = s"
proof (induction s arbitrary: q)
  case Nil
  then show ?case by (simp add: toLowerCase_def)
next
  case (Cons c cs)
  then obtain d ds where q: "q = d # ds" by (cases q) (auto simp: toLowerCase_def)
  with Cons.prems have d: "lower_char d = c" and ds: "toLowerCase ds = cs"
    and c: "is_digit c \<or> c = CHR ''.''" and cs: "address_chars cs"
    by (auto simp: toLowerCase_def address_chars_def)
  from address_char_code [OF c] have "(of_char c :: nat) < 97" by simp
  with d have "d = c" by (rule lower_char_below_a)
  with Cons.IH [OF cs ds] q show ?case by simp
qed

lemma address_chars_sublist: "address_chars s \<Longrightarrow> sublist q s \<Longrightarrow> address_chars q"
  using set_mono_sublist [of q s] by (auto simp: address_chars_def list_all_iff)

lemma address_includes_case:
  assumes "address_chars s" and "toLowerCase q = toLowerCase q'" and "str_includes s q"
  shows "q' = q"
proof -
  from assms(1,3) have q: "address_chars q" by (simp add: str_includes_iff address_chars_sublist)
  then have "toLowerCase q' = q" using assms(2) by (simp add: toLowerCase_address)
  with q show ?thesis by (rule toLowerCase_eq_address)
qed

lemma text_match_case_insensitive:
  assumes "address_chars (wgIP peer)" and "toLowerCase q = toLowerCase q'"
  shows "text_match q peer = text_match q' peer"
proof -
  have "str_includes (wgIP peer) q = str_includes (wgIP peer) q'"
    using address_includes_case [OF assms(1), of q q'] address_includes_case [OF assms(1), of q' q]
      assms(2) by auto
  then show ?thesis by (simp add: text_match_def assms(2))
qed

lemma digit_run_address: "digit_run a \<Longrightarrow> address_chars a"
  by (auto simp: digit_run_def address_chars_def list_all_iff)

lemma dotted_quad_address: "dotted_quad m \<Longrightarrow> address_chars m"
proof -
  assume "dotted_quad m"
  then obtain a b c d where m: "m = a @ ''.'' @ b @ ''.'' @ c @ ''.'' @ d"
    and "address_chars a" "address_chars b" "address_chars c" "address_chars d"
    unfolding dotted_quad_def using digit_run_address by blast
  then show ?thesis unfolding m by (simp add: address_chars_def)
qed

lemma wgIP_address_or_NA:
  "wgIP (processPeer peer) = ''N/A'' \<or> address_chars (wgIP (processPeer peer))"
proof (cases "rx_exec ipv4_regex (allowed_address peer)")
  case None
  then show ?thesis by (simp add: processPeer_def peer_wgIP_def)
next
  case (Some m)
  from rx_exec_Some_longest [OF greedy_first_ipv4 Some] have "dotted_quad m"
    unfolding rx_lang_ipv4 by (elim exE conjE)
  then have "address_chars m" by (rule dotted_quad_address)
  with Some show ?thesis by (simp add: processPeer_def peer_wgIP_def)
qed

lemma toLowerCase_length: "toLowerCase q = toLowerCase q' \<Longrightarrow> (q = []) = (q' = [])"
  unfolding toLowerCase_def by (cases q; cases q') simp_all

lemma filterPeers_case_insensitive:
  assumes "list_all (\<lambda>peer. address_chars (wgIP peer)) peers" and "toLowerCase q = toLowerCase q'"
  shows "filterPeers q st peers = filterPeers q' st peers"
proof -
  have f: "filter (text_match q) peers = filter (text_match q') peers"
  proof (rule filter_cong [OF refl])
    fix peer
    assume "peer \<in> set peers"
    with assms(1) have "address_chars (wgIP peer)" by (simp add: list_all_iff)
    then show "text_match q peer = text_match q' peer"
      using assms(2) by (rule text_match_case_insensitive)
  qed
  show ?thesis
  proof (cases "q = []")
    case True
    with toLowerCase_length [OF assms(2)] have "q' = []" by simp
    with True show ?thesis by simp
  next
    case False
    with toLowerCase_length [OF assms(2)] have "q' \<noteq> []" by simp
    with False show ?thesis unfolding filterPeers_def Let_def f by simp
  qed
qed

lemma toLowerCase_NA: "toLowerCase ''N/A'' = toLowerCase ''n/a''"
  by code_simp

lemma text_match_NA_upper:
  "text_match ''N/A'' \<lparr> ProcessedPeer.id = i, name = ''MC1'', wgIP = ''N/A'', lans = l, status = s,
     lastHandshake = h, comment = [], endpointAddress = e \<rparr>"
  by (simp add: text_match_def)

lemma text_match_NA_lower:
  "\<not> text_match ''n/a'' \<lparr> ProcessedPeer.id = i, name = ''MC1'', wgIP = ''N/A'', lans = l, status = s,
     lastHandshake = h, comment = [], endpointAddress = e \<rparr>"
  unfolding text_match_def by code_simp

text \<open>
  Claim C9 says that the peers passing the text predicate do not change with the case of
  the query, also when the tunnel address is the sentinel \<^verbatim>\<open>N/A\<close>. For a record without a
  dotted quad in its allowed addresses the query \<^verbatim>\<open>N/A\<close> finds the record and the query
  \<^verbatim>\<open>n/a\<close>, with the same lower-case form, does not.
\<close>

theorem search_sentinel_case_sensitive:
  "filterPeers ''N/A'' ''all'' (processPeers [raw_peer (Some ''MC1'') None None ''fd00::1/128'']) =
     processPeers [raw_peer (Some ''MC1'') None None ''fd00::1/128''] \<and>
   filterPeers ''n/a'' ''all'' (processPeers [raw_peer (Some ''MC1'') None None ''fd00::1/128'']) = [] \<and>
   toLowerCase ''N/A'' = toLowerCase ''n/a''"
proof -
  have p: "processPeer (raw_peer (Some ''MC1'') None None ''fd00::1/128'') =
     \<lparr> ProcessedPeer.id = ''*1'', name = ''MC1'', wgIP = ''N/A'',
       lans = peer_lans (raw_peer (Some ''MC1'') None None ''fd00::1/128''),
       status = peer_status (raw_peer (Some ''MC1'') None None ''fd00::1/128''),
       lastHandshake = ''never'', comment = [], endpointAddress = ''N/A'' \<rparr>"
    unfolding processPeer_def peer_wgIP_def allowed_raw_peer ipv4_exec_none
    by (simp add: raw_peer_def peer_name_def or_else_def)
  show ?thesis
    unfolding processPeers_def list.map p filterPeers_def Let_def
    using text_match_NA_upper text_match_NA_lower toLowerCase_NA by simp
qed

end
